theory Spec2Isabelle
  imports Main
begin

section \<open>Strings and characters\<close>

text \<open>
  ECMAScript strings are sequences of UTF-16 code units. The development works with the
  code units below 256 (the Latin-1 range), which is what \<^typ>\<open>char\<close> holds; every
  character function below is the restriction of the ECMAScript one to that range.
\<close>

definition code :: "char \<Rightarrow> nat" where
  "code c = of_char c"

definition bs :: char where
  "bs = CHR 0x5C"

text \<open>The basic word characters of \<^verbatim>\<open>\w\<close> and \<^verbatim>\<open>\b\<close>: letters, digits and underscore.\<close>

definition is_word_char :: "char \<Rightarrow> bool" where
  "is_word_char c =
     (let n = code c in
      (48 \<le> n \<and> n \<le> 57) \<or> (65 \<le> n \<and> n \<le> 90) \<or> n = 95 \<or> (97 \<le> n \<and> n \<le> 122))"

definition is_digit :: "char \<Rightarrow> bool" where
  "is_digit c = (48 \<le> code c \<and> code c \<le> 57)"

text \<open>Line terminators (LF, CR) and white space (TAB, LF, VT, FF, CR, SP, NBSP) below 256.\<close>

definition is_line_terminator :: "char \<Rightarrow> bool" where
  "is_line_terminator c = (code c = 10 \<or> code c = 13)"

definition is_white_space :: "char \<Rightarrow> bool" where
  "is_white_space c = (let n = code c in (9 \<le> n \<and> n \<le> 13) \<or> n = 32 \<or> n = 160)"

text \<open>
  \<^verbatim>\<open>String.prototype.toLowerCase\<close> and the upper-casing behind the \<^verbatim>\<open>i\<close> flag. In the
  Latin-1 range the cased letters are A-Z, a-z and the accented letters C0-DE / E0-FE without
  the two operators D7 and F7. The upper case of B5 and FF lies outside the range and is the
  image of no other character of the range, so both are their own canonical form here.
\<close>

definition lower_char :: "char \<Rightarrow> char" where
  "lower_char c =
     (let n = code c in
      if (65 \<le> n \<and> n \<le> 90) \<or> (192 \<le> n \<and> n \<le> 222 \<and> n \<noteq> 215) then char_of (n + 32) else c)"

definition upper_char :: "char \<Rightarrow> char" where
  "upper_char c =
     (let n = code c in
      if (97 \<le> n \<and> n \<le> 122) \<or> (224 \<le> n \<and> n \<le> 254 \<and> n \<noteq> 247) then char_of (n - 32) else c)"

definition toLowerCase :: "string \<Rightarrow> string" where
  "toLowerCase s = map lower_char s"

text \<open>
  Canonical decomposition followed by the removal of the combining marks U+0300-U+036F:
  an accented Latin-1 letter decomposes into its base letter and one mark of that block,
  every other character of the range is its own decomposition.
\<close>

definition strip_diacritic :: "char \<Rightarrow> char" where
  "strip_diacritic c =
     (let n = code c in
      if 192 \<le> n \<and> n \<le> 197 then CHR ''A''
      else if n = 199 then CHR ''C''
      else if 200 \<le> n \<and> n \<le> 203 then CHR ''E''
      else if 204 \<le> n \<and> n \<le> 207 then CHR ''I''
      else if n = 209 then CHR ''N''
      else if 210 \<le> n \<and> n \<le> 214 then CHR ''O''
      else if 217 \<le> n \<and> n \<le> 220 then CHR ''U''
      else if n = 221 then CHR ''Y''
      else if 224 \<le> n \<and> n \<le> 229 then CHR ''a''
      else if n = 231 then CHR ''c''
      else if 232 \<le> n \<and> n \<le> 235 then CHR ''e''
      else if 236 \<le> n \<and> n \<le> 239 then CHR ''i''
      else if n = 241 then CHR ''n''
      else if 242 \<le> n \<and> n \<le> 246 then CHR ''o''
      else if 249 \<le> n \<and> n \<le> 252 then CHR ''u''
      else if n = 253 \<or> n = 255 then CHR ''y''
      else c)"

text \<open>\<^verbatim>\<open>normalizeText\<close> of helpers.ts: NFD, strip the combining marks, lower-case.\<close>

definition normalizeText :: "string \<Rightarrow> string" where
  "normalizeText text = toLowerCase (map strip_diacritic text)"


section \<open>Regular expressions\<close>

text \<open>
  The matcher builds every pattern by string interpolation and hands it to \<^verbatim>\<open>new RegExp\<close>,
  so the pattern language is part of the program's behaviour. The model covers the fragment
  of the ECMAScript pattern grammar (with the web-compatibility extensions) made of
  disjunction, sequencing, groups, the quantifiers \<^verbatim>\<open>* + ?\<close> and their lazy forms, the
  assertions \<^verbatim>\<open>^ $ \b \B\<close>, the dot, the class escapes \<^verbatim>\<open>\d \s \w\<close> and their complements,
  the control escapes, identity escapes and literal characters. Constructs outside the
  fragment (character classes, braced quantifiers, look-around, back-references, named
  groups, numeric, hexadecimal, unicode and control-letter escapes, flags other than
  \<^verbatim>\<open>g\<close> and \<^verbatim>\<open>i\<close>) are reported as \<open>Unsupported\<close>: there the model says nothing about the
  program.
\<close>

datatype error = SyntaxError | TypeError | Unsupported

datatype assertion = Bol | Eol | WordB | NotWordB

datatype class_escape = Digit | Space | Word

datatype node =
    Chr char
  | Dot
  | ClassEsc bool class_escape
  | Assert assertion
  | Group "node list list"
  | Quant nat "nat option" bool node

subsection \<open>Parsing a pattern\<close>

datatype pmode = Normal | Escape | Open | OpenQ

datatype qstate = NoAtom | Atom | Quantified

text \<open>
  The parser reads the pattern left to right. \<open>cur\<close> holds the terms of the alternative
  being read and \<open>alts\<close> the finished alternatives of the disjunction being read (both most
  recent first); \<open>stack\<close> holds the same for the enclosing groups. \<open>q\<close> says whether a
  quantifier may follow.
\<close>

record pstate =
  mode :: pmode
  cur :: "node list"
  alts :: "node list list"
  stack :: "(node list list \<times> node list) list"
  q :: qstate

definition init_pstate :: pstate where
  "init_pstate = \<lparr>mode = Normal, cur = [], alts = [], stack = [], q = NoAtom\<rparr>"

definition push_atom :: "node \<Rightarrow> pstate \<Rightarrow> error + pstate" where
  "push_atom n st = Inr (st\<lparr>mode := Normal, cur := n # cur st, q := Atom\<rparr>)"

definition push_assertion :: "assertion \<Rightarrow> pstate \<Rightarrow> error + pstate" where
  "push_assertion a st = Inr (st\<lparr>mode := Normal, cur := Assert a # cur st, q := NoAtom\<rparr>)"

text \<open>A quantifier needs an atom before it that has no quantifier yet: else "Nothing to repeat".\<close>

definition quantify :: "nat \<Rightarrow> nat option \<Rightarrow> pstate \<Rightarrow> error + pstate" where
  "quantify mn mx st =
     (case cur st of
        [] \<Rightarrow> Inl SyntaxError
      | t # ts \<Rightarrow>
          if q st = Atom
          then Inr (st\<lparr>mode := Normal, cur := Quant mn mx True t # ts, q := Quantified\<rparr>)
          else Inl SyntaxError)"

definition make_lazy :: "pstate \<Rightarrow> error + pstate" where
  "make_lazy st =
     (case cur st of
        Quant mn mx g t # ts \<Rightarrow>
          Inr (st\<lparr>mode := Normal, cur := Quant mn mx False t # ts, q := NoAtom\<rparr>)
      | _ \<Rightarrow> Inl SyntaxError)"

definition open_group :: "pstate \<Rightarrow> error + pstate" where
  "open_group st =
     Inr (st\<lparr>mode := Open, cur := [], alts := [],
              stack := (alts st, cur st) # stack st, q := NoAtom\<rparr>)"

definition close_group :: "pstate \<Rightarrow> error + pstate" where
  "close_group st =
     (case stack st of
        [] \<Rightarrow> Inl SyntaxError
      | (a, cu) # rest \<Rightarrow>
          Inr (st\<lparr>mode := Normal, cur := Group (rev (rev (cur st) # alts st)) # cu,
                   alts := a, stack := rest, q := Atom\<rparr>))"

definition next_alternative :: "pstate \<Rightarrow> error + pstate" where
  "next_alternative st =
     Inr (st\<lparr>mode := Normal, cur := [], alts := rev (cur st) # alts st, q := NoAtom\<rparr>)"

definition normal_step :: "char \<Rightarrow> pstate \<Rightarrow> error + pstate" where
  "normal_step c st =
     (if c = bs then Inr (st\<lparr>mode := Escape\<rparr>)
      else if c = CHR ''('' then open_group st
      else if c = CHR '')'' then close_group st
      else if c = CHR ''|'' then next_alternative st
      else if c = CHR ''*'' then quantify 0 None st
      else if c = CHR ''+'' then quantify 1 None st
      else if c = CHR ''?'' then
        (if q st = Quantified then make_lazy st else quantify 0 (Some 1) st)
      else if c = CHR ''^'' then push_assertion Bol st
      else if c = CHR ''$'' then push_assertion Eol st
      else if c = CHR ''.'' then push_atom Dot st
      else if c = CHR ''['' \<or> c = CHR ''{'' then Inl Unsupported
      else push_atom (Chr c) st)"

definition escape_step :: "char \<Rightarrow> pstate \<Rightarrow> error + pstate" where
  "escape_step c st =
     (if c = CHR ''b'' then push_assertion WordB st
      else if c = CHR ''B'' then push_assertion NotWordB st
      else if c = CHR ''d'' then push_atom (ClassEsc False Digit) st
      else if c = CHR ''D'' then push_atom (ClassEsc True Digit) st
      else if c = CHR ''s'' then push_atom (ClassEsc False Space) st
      else if c = CHR ''S'' then push_atom (ClassEsc True Space) st
      else if c = CHR ''w'' then push_atom (ClassEsc False Word) st
      else if c = CHR ''W'' then push_atom (ClassEsc True Word) st
      else if c = CHR ''t'' then push_atom (Chr (CHR 0x09)) st
      else if c = CHR ''n'' then push_atom (Chr (CHR 0x0A)) st
      else if c = CHR ''v'' then push_atom (Chr (CHR 0x0B)) st
      else if c = CHR ''f'' then push_atom (Chr (CHR 0x0C)) st
      else if c = CHR ''r'' then push_atom (Chr (CHR 0x0D)) st
      else if is_digit c \<or> c = CHR ''c'' \<or> c = CHR ''x'' \<or> c = CHR ''u'' \<or> c = CHR ''k''
        then Inl Unsupported
      else push_atom (Chr c) st)"

definition step :: "char \<Rightarrow> pstate \<Rightarrow> error + pstate" where
  "step c st =
     (case mode st of
        Normal \<Rightarrow> normal_step c st
      | Escape \<Rightarrow> escape_step c st
      | Open \<Rightarrow> if c = CHR ''?'' then Inr (st\<lparr>mode := OpenQ\<rparr>) else normal_step c st
      | OpenQ \<Rightarrow>
          if c = CHR '':'' then Inr (st\<lparr>mode := Normal\<rparr>)
          else if c = CHR ''='' \<or> c = CHR ''!'' \<or> c = CHR ''<'' then Inl Unsupported
          else Inl SyntaxError)"

fun run :: "string \<Rightarrow> pstate \<Rightarrow> error + pstate" where
  "run [] st = Inr st"
| "run (c # cs) st = (case step c st of Inl e \<Rightarrow> Inl e | Inr st' \<Rightarrow> run cs st')"

text \<open>
  At the end of the pattern a pending backslash, a pending \<^verbatim>\<open>(?\<close> and an open group are
  syntax errors.
\<close>

definition finish :: "pstate \<Rightarrow> error + node list list" where
  "finish st =
     (if mode st = Escape \<or> mode st = OpenQ \<or> stack st \<noteq> [] then Inl SyntaxError
      else Inr (rev (rev (cur st) # alts st)))"

definition parse_pattern :: "string \<Rightarrow> error + node list list" where
  "parse_pattern p = (case run p init_pstate of Inl e \<Rightarrow> Inl e | Inr st \<Rightarrow> finish st)"

subsection \<open>Matching\<close>

text \<open>
  The matchers follow the continuation semantics of the language definition: a matcher
  takes the position \<open>x\<close> in the input and a continuation \<open>c\<close> for the rest of the pattern,
  and succeeds when some way of matching at \<open>x\<close> lets the continuation succeed. Captures
  are not recorded: no pattern of the fragment reads them and \<^verbatim>\<open>test\<close> returns a boolean.
\<close>

type_synonym continuation = "nat \<Rightarrow> bool"
type_synonym matcher = "nat \<Rightarrow> continuation \<Rightarrow> bool"

definition canonicalize :: "bool \<Rightarrow> char \<Rightarrow> char" where
  "canonicalize ic c = (if ic then upper_char c else c)"

definition in_class :: "class_escape \<Rightarrow> char \<Rightarrow> bool" where
  "in_class k c = (case k of Digit \<Rightarrow> is_digit c | Space \<Rightarrow> is_white_space c | Word \<Rightarrow> is_word_char c)"

definition is_word_at :: "string \<Rightarrow> nat \<Rightarrow> bool" where
  "is_word_at s x = (x < length s \<and> is_word_char (s ! x))"

definition is_word_before :: "string \<Rightarrow> nat \<Rightarrow> bool" where
  "is_word_before s x = (0 < x \<and> x \<le> length s \<and> is_word_char (s ! (x - 1)))"

definition assertion_holds :: "assertion \<Rightarrow> string \<Rightarrow> nat \<Rightarrow> bool" where
  "assertion_holds a s x =
     (case a of
        Bol \<Rightarrow> x = 0
      | Eol \<Rightarrow> x = length s
      | WordB \<Rightarrow> is_word_before s x \<noteq> is_word_at s x
      | NotWordB \<Rightarrow> is_word_before s x = is_word_at s x)"

text \<open>
  RepeatMatcher. An iteration that consumes nothing once the minimum is reached fails, so
  every further iteration either lowers the minimum or moves forward: \<open>fuel\<close> bounds the
  number of iterations and is set by the caller to more than any run can use (the minimum
  plus the length of the rest of the input plus one).
\<close>

fun repeat_matcher ::
  "matcher \<Rightarrow> nat \<Rightarrow> nat \<Rightarrow> nat option \<Rightarrow> bool \<Rightarrow> nat \<Rightarrow> continuation \<Rightarrow> bool" where
  "repeat_matcher m 0 mn mx greedy x c = (if mx = Some 0 then c x else False)"
| "repeat_matcher m (Suc fuel) mn mx greedy x c =
     (if mx = Some 0 then c x
      else
        let d = (\<lambda>y. if mn = 0 \<and> y = x then False
                     else repeat_matcher m fuel (mn - 1) (map_option (\<lambda>k. k - 1) mx) greedy y c)
        in if mn \<noteq> 0 then m x d
           else if greedy then (m x d \<or> c x)
           else (c x \<or> m x d))"

fun m_node :: "bool \<Rightarrow> string \<Rightarrow> node \<Rightarrow> matcher"
  and m_seq :: "bool \<Rightarrow> string \<Rightarrow> node list \<Rightarrow> matcher"
  and m_alts :: "bool \<Rightarrow> string \<Rightarrow> node list list \<Rightarrow> matcher" where
  "m_node ic s (Chr ch) x c =
     (x < length s \<and> canonicalize ic (s ! x) = canonicalize ic ch \<and> c (Suc x))"
| "m_node ic s Dot x c = (x < length s \<and> \<not> is_line_terminator (s ! x) \<and> c (Suc x))"
| "m_node ic s (ClassEsc neg k) x c = (x < length s \<and> in_class k (s ! x) \<noteq> neg \<and> c (Suc x))"
| "m_node ic s (Assert a) x c = (assertion_holds a s x \<and> c x)"
| "m_node ic s (Group ds) x c = m_alts ic s ds x c"
| "m_node ic s (Quant mn mx greedy r) x c =
     repeat_matcher (\<lambda>y d. m_node ic s r y d) (mn + (length s - x) + 1) mn mx greedy x c"
| "m_seq ic s [] x c = c x"
| "m_seq ic s (t # ts) x c = m_node ic s t x (\<lambda>y. m_seq ic s ts y c)"
| "m_alts ic s [] x c = False"
| "m_alts ic s (a # as) x c = (m_seq ic s a x c \<or> m_alts ic s as x c)"

subsection \<open>RegExp objects\<close>

record regexp =
  pattern :: "node list list"
  ignoreCase :: bool
  global :: bool
  lastIndex :: nat

fun parse_flags :: "string \<Rightarrow> bool \<times> bool \<Rightarrow> error + bool \<times> bool" where
  "parse_flags [] gi = Inr gi"
| "parse_flags (f # fs) (g, i) =
     (if f = CHR ''g'' then (if g then Inl SyntaxError else parse_flags fs (True, i))
      else if f = CHR ''i'' then (if i then Inl SyntaxError else parse_flags fs (g, True))
      else if f \<in> set ''dmsuvy'' then Inl Unsupported
      else Inl SyntaxError)"

text \<open>\<^verbatim>\<open>new RegExp(pattern, flags)\<close>: throws SyntaxError on a malformed pattern.\<close>

definition RegExp_new :: "string \<Rightarrow> string \<Rightarrow> error + regexp" where
  "RegExp_new p flags =
     (case parse_flags flags (False, False) of
        Inl e \<Rightarrow> Inl e
      | Inr (g, i) \<Rightarrow>
          (case parse_pattern p of
             Inl e \<Rightarrow> Inl e
           | Inr ds \<Rightarrow> Inr \<lparr>pattern = ds, ignoreCase = i, global = g, lastIndex = 0\<rparr>))"

text \<open>
  \<^verbatim>\<open>RegExp.prototype.test\<close>: the search starts at \<open>lastIndex\<close> for a global expression and
  at 0 otherwise, and tries every start position up to the end of the input. The update
  of \<open>lastIndex\<close> is dropped: every expression of the program is used once.
\<close>

definition test :: "regexp \<Rightarrow> string \<Rightarrow> bool" where
  "test r s =
     (let start = (if global r then lastIndex r else 0)
      in list_ex (\<lambda>x. m_alts (ignoreCase r) s (pattern r) x (\<lambda>y. True))
                 [start ..< Suc (length s)])"


text \<open>\<^verbatim>\<open>new RegExp(p, flags).test(s)\<close> on a fresh expression.\<close>

definition RegExp_test :: "string \<Rightarrow> string \<Rightarrow> string \<Rightarrow> error + bool" where
  "RegExp_test p flags s =
     (case RegExp_new p flags of Inl e \<Rightarrow> Inl e | Inr r \<Rightarrow> Inr (test r s))"


section \<open>Data model (schema.ts, types.ts)\<close>

datatype source_type = Journalist | Media | Aggregator

text \<open>
  A source as \<^verbatim>\<open>sourceSchema\<close> produces it. \<^verbatim>\<open>tier\<close> is a nullable number; the registry's
  tiers are integer ranks and are modelled as integers.
\<close>

record source =
  source_id :: string
  name :: string
  nameIsCommon :: bool
  source_type :: source_type
  tier :: "int option"
  organization :: "string option"
  twitter :: "string option"
  domains :: "string list option"
  nameNormalized :: string
  twitterNormalized :: "string option"

text \<open>The transform of \<^verbatim>\<open>sourceSchema\<close>: an absent or empty handle has no normalized form.\<close>

definition sourceSchema ::
  "string \<Rightarrow> string \<Rightarrow> bool \<Rightarrow> source_type \<Rightarrow> int option \<Rightarrow> string option \<Rightarrow> string option
     \<Rightarrow> string list option \<Rightarrow> source" where
  "sourceSchema i n common ty ti org tw ds =
     \<lparr>source_id = i, name = n, nameIsCommon = common, source_type = ty, tier = ti,
      organization = org, twitter = tw, domains = ds,
      nameNormalized = normalizeText n,
      twitterNormalized =
        (case tw of None \<Rightarrow> None | Some t \<Rightarrow> if t = [] then None else Some (normalizeText t))\<rparr>"

record settings =
  sources :: "source list"
  flairTemplateId :: string
  flairCssClass :: string
  commentFooter :: string
  analyzePostBody :: bool
  ignoredUsers :: "string list"
  errorReportSubredditName :: string

text \<open>The two components of a \<^verbatim>\<open>URL\<close> object that the program reads.\<close>

record URL =
  hostname :: string
  pathname :: string

text \<open>The value \<^verbatim>\<open>processPost\<close> returns (\<^verbatim>\<open>PostData\<close>).\<close>

record postdata =
  pd_id :: string
  subredditName :: string
  titleNormalized :: string
  bodyNormalized :: "string option"
  url :: "URL option"
  links :: "URL list option"



section \<open>The matcher (matcher.ts)\<close>

subsection \<open>Channel predicates\<close>

text \<open>A handle that is null or the empty string is falsy.\<close>

definition handle_of :: "source \<Rightarrow> string option" where
  "handle_of src =
     (case twitterNormalized src of None \<Rightarrow> None | Some t \<Rightarrow> if t = [] then None else Some t)"

definition name_common_title_pattern :: "string \<Rightarrow> string" where
  "name_common_title_pattern n =
     ''^'' @ n @ '':|('' @ [bs] @ ''(|'' @ [bs] @ ''[)'' @ n @ ''('' @ [bs] @ '')|'' @ [bs] @ ''])''"

definition name_word_pattern :: "string \<Rightarrow> string" where
  "name_word_pattern n = [bs] @ ''b'' @ n @ [bs] @ ''b''"

definition isNameInTitle :: "string \<Rightarrow> source \<Rightarrow> error + bool" where
  "isNameInTitle title src =
     (if nameIsCommon src
      then RegExp_test (name_common_title_pattern (nameNormalized src)) ''i'' title
      else RegExp_test (name_word_pattern (nameNormalized src)) ''i'' title)"

definition twitter_text_pattern :: "string \<Rightarrow> string" where
  "twitter_text_pattern t =
     ''^@?'' @ t @ '':|@'' @ t @ [bs] @ ''b|('' @ [bs] @ ''(|'' @ [bs] @ ''[)'' @ t
       @ ''('' @ [bs] @ '')|'' @ [bs] @ ''])''"

definition isTwitterInTitle :: "string \<Rightarrow> source \<Rightarrow> error + bool" where
  "isTwitterInTitle title src =
     (case handle_of src of
        None \<Rightarrow> Inr False
      | Some t \<Rightarrow> RegExp_test (twitter_text_pattern t) ''i'' title)"

definition twitter_url_pattern :: "string \<Rightarrow> string" where
  "twitter_url_pattern t = ''^'' @ [bs] @ ''/'' @ t @ ''('' @ [bs] @ ''/|'' @ [bs] @ ''s|$)''"

definition isTwitterInUrl :: "URL \<Rightarrow> source \<Rightarrow> error + bool" where
  "isTwitterInUrl u src =
     (case handle_of src of
        None \<Rightarrow> Inr False
      | Some t \<Rightarrow>
          if toLowerCase (hostname u) \<in> set [''x.com'', ''twitter.com'']
          then RegExp_test (twitter_url_pattern t) ''i'' (pathname u)
          else Inr False)"

text \<open>\<^verbatim>\<open>domain.replace(/\./g, '\\.')\<close>\<close>

definition escape_periods :: "string \<Rightarrow> string" where
  "escape_periods d = concat (map (\<lambda>c. if c = CHR ''.'' then [bs, CHR ''.''] else [c]) d)"

definition domain_pattern :: "string \<Rightarrow> string" where
  "domain_pattern d = ''^(.*'' @ [bs] @ ''.)?'' @ escape_periods d @ ''$''"

text \<open>
  \<^verbatim>\<open>domains.some(domain => new RegExp(...).test(host))\<close>: the domains are tried in order,
  each with an expression of its own, up to the first that matches.
\<close>

fun some_domain :: "string \<Rightarrow> string list \<Rightarrow> error + bool" where
  "some_domain host [] = Inr False"
| "some_domain host (d # ds) =
     (case RegExp_test (domain_pattern d) [] host of
        Inl e \<Rightarrow> Inl e
      | Inr True \<Rightarrow> Inr True
      | Inr False \<Rightarrow> some_domain host ds)"

text \<open>An absent domain list gives \<^verbatim>\<open>undefined\<close>, which the caller's \<^verbatim>\<open>if\<close> reads as false.\<close>

definition isDomainInUrl :: "URL \<Rightarrow> source \<Rightarrow> error + bool" where
  "isDomainInUrl u src =
     (case domains src of None \<Rightarrow> Inr False | Some ds \<Rightarrow> some_domain (hostname u) ds)"

definition twitter_links_pattern :: "string \<Rightarrow> string" where
  "twitter_links_pattern t = ''^/'' @ t @ ''('' @ [bs] @ ''/|'' @ [bs] @ ''s|$)''"

definition isTwitterInLinks :: "URL list \<Rightarrow> source \<Rightarrow> error + bool" where
  "isTwitterInLinks urls src =
     (case handle_of src of
        None \<Rightarrow> Inr False
      | Some t \<Rightarrow>
          (case RegExp_new (twitter_links_pattern t) ''i'' of
             Inl e \<Rightarrow> Inl e
           | Inr regex \<Rightarrow> Inr (list_ex (\<lambda>u. test regex (pathname u)) urls)))"

fun some_link_domain :: "URL list \<Rightarrow> string list \<Rightarrow> error + bool" where
  "some_link_domain [] ds = Inr False"
| "some_link_domain (u # us) ds =
     (case some_domain (hostname u) ds of
        Inl e \<Rightarrow> Inl e
      | Inr True \<Rightarrow> Inr True
      | Inr False \<Rightarrow> some_link_domain us ds)"

definition isDomainInLinks :: "URL list \<Rightarrow> source \<Rightarrow> error + bool" where
  "isDomainInLinks urls src =
     (case domains src of
        None \<Rightarrow> Inr False
      | Some ds \<Rightarrow> if length ds < 1 then Inr False else some_link_domain urls ds)"

definition name_common_body_pattern :: "string \<Rightarrow> string" where
  "name_common_body_pattern n =
     n @ '':|('' @ [bs] @ ''[|'' @ [bs] @ ''()'' @ n @ ''('' @ [bs] @ '']|'' @ [bs] @ ''))''"

definition isNameInBody :: "string \<Rightarrow> source \<Rightarrow> error + bool" where
  "isNameInBody body src =
     (if nameIsCommon src
      then RegExp_test (name_common_body_pattern (nameNormalized src)) ''gi'' body
      else RegExp_test (name_word_pattern (nameNormalized src)) ''gi'' body)"

definition isTwitterInBody :: "string \<Rightarrow> source \<Rightarrow> error + bool" where
  "isTwitterInBody body src =
     (case handle_of src of
        None \<Rightarrow> Inr False
      | Some t \<Rightarrow> RegExp_test (twitter_text_pattern t) ''gi'' body)"

subsection \<open>The result map\<close>

text \<open>
  A \<^verbatim>\<open>Map\<close> keeps its keys in the order of their first insertion; setting a key that is
  present replaces its value in place.
\<close>

fun Map_set :: "'k \<Rightarrow> 'v \<Rightarrow> ('k \<times> 'v) list \<Rightarrow> ('k \<times> 'v) list" where
  "Map_set k v [] = [(k, v)]"
| "Map_set k v ((k', v') # m) = (if k' = k then (k, v) # m else (k', v') # Map_set k v m)"

definition Map_values :: "('k \<times> 'v) list \<Rightarrow> 'v list" where
  "Map_values m = map snd m"

subsection \<open>The four channel scans\<close>

text \<open>
  Each scan walks the registry in order and records a source when its first predicate
  holds or else when its second does; the second is evaluated only when the first is false.
  The four loops of matcher.ts have this one shape.
\<close>

fun scan_sources ::
  "(source \<Rightarrow> error + bool) \<Rightarrow> (source \<Rightarrow> error + bool) \<Rightarrow> source list
     \<Rightarrow> (string \<times> source) list \<Rightarrow> error + (string \<times> source) list" where
  "scan_sources p1 p2 [] list = Inr list"
| "scan_sources p1 p2 (src # rest) list =
     (case p1 src of
        Inl e \<Rightarrow> Inl e
      | Inr True \<Rightarrow> scan_sources p1 p2 rest (Map_set (source_id src) src list)
      | Inr False \<Rightarrow>
          (case p2 src of
             Inl e \<Rightarrow> Inl e
           | Inr True \<Rightarrow> scan_sources p1 p2 rest (Map_set (source_id src) src list)
           | Inr False \<Rightarrow> scan_sources p1 p2 rest list))"

definition findMatchesInTitle ::
  "string \<Rightarrow> source list \<Rightarrow> (string \<times> source) list \<Rightarrow> error + (string \<times> source) list" where
  "findMatchesInTitle title srcs list =
     scan_sources (isNameInTitle title) (isTwitterInTitle title) srcs list"

definition findMatchesInUrl ::
  "URL \<Rightarrow> source list \<Rightarrow> (string \<times> source) list \<Rightarrow> error + (string \<times> source) list" where
  "findMatchesInUrl u srcs list = scan_sources (isTwitterInUrl u) (isDomainInUrl u) srcs list"

definition findMatchesInLinks ::
  "URL list \<Rightarrow> source list \<Rightarrow> (string \<times> source) list \<Rightarrow> error + (string \<times> source) list" where
  "findMatchesInLinks urls srcs list =
     scan_sources (isTwitterInLinks urls) (isDomainInLinks urls) srcs list"

definition findMatchesInBody ::
  "string \<Rightarrow> source list \<Rightarrow> (string \<times> source) list \<Rightarrow> error + (string \<times> source) list" where
  "findMatchesInBody body srcs list =
     scan_sources (isNameInBody body) (isTwitterInBody body) srcs list"

subsection \<open>Ordering and the result\<close>

text \<open>\<^verbatim>\<open>src.tier ?? 6\<close> and the comparator \<^verbatim>\<open>(a, b) => (a.tier ?? 6) - (b.tier ?? 6)\<close>.\<close>

definition tier_or_6 :: "source \<Rightarrow> int" where
  "tier_or_6 src = (case tier src of None \<Rightarrow> 6 | Some t \<Rightarrow> t)"

definition tier_compare :: "source \<Rightarrow> source \<Rightarrow> int" where
  "tier_compare a b = tier_or_6 a - tier_or_6 b"

text \<open>
  \<^verbatim>\<open>Array.prototype.sort\<close> is stable. For a comparator that is a difference of keys the
  sorted array is determined by that; it is computed here by stable insertion.
\<close>

fun insert_sorted :: "('a \<Rightarrow> 'a \<Rightarrow> int) \<Rightarrow> 'a \<Rightarrow> 'a list \<Rightarrow> 'a list" where
  "insert_sorted cmp x [] = [x]"
| "insert_sorted cmp x (y # ys) =
     (if cmp x y \<le> 0 then x # y # ys else y # insert_sorted cmp x ys)"

definition Array_sort :: "('a \<Rightarrow> 'a \<Rightarrow> int) \<Rightarrow> 'a list \<Rightarrow> 'a list" where
  "Array_sort cmp xs = foldr (insert_sorted cmp) xs []"

text \<open>The map after the scans that apply to the post, in the order of the code.\<close>

definition collectMatches :: "postdata \<Rightarrow> settings \<Rightarrow> error + (string \<times> source) list" where
  "collectMatches post st =
     (case findMatchesInTitle (titleNormalized post) (sources st) [] of
        Inl e \<Rightarrow> Inl e
      | Inr l1 \<Rightarrow>
     (case (case url post of None \<Rightarrow> Inr l1
            | Some u \<Rightarrow> findMatchesInUrl u (sources st) l1) of
        Inl e \<Rightarrow> Inl e
      | Inr l2 \<Rightarrow>
     (case (case links post of None \<Rightarrow> Inr l2
            | Some urls \<Rightarrow> findMatchesInLinks urls (sources st) l2) of
        Inl e \<Rightarrow> Inl e
      | Inr l3 \<Rightarrow>
     (case bodyNormalized post of
        None \<Rightarrow> Inr l3
      | Some body \<Rightarrow>
          if body \<noteq> [] \<and> analyzePostBody st
          then findMatchesInBody body (sources st) l3
          else Inr l3))))"

definition findSourcesInPost :: "postdata \<Rightarrow> settings \<Rightarrow> error + source list option" where
  "findSourcesInPost post st =
     (case collectMatches post st of
        Inl e \<Rightarrow> Inl e
      | Inr list \<Rightarrow>
          let result = Array_sort tier_compare (Map_values list)
          in Inr (if length result > 0 then Some result else None))"


section \<open>Building the post data (helpers.ts)\<close>






section \<open>Specification vocabulary\<close>

text \<open>A source matches a post when one of the channel predicates that apply to the post holds.\<close>

definition matches_some_channel :: "postdata \<Rightarrow> settings \<Rightarrow> source \<Rightarrow> bool" where
  "matches_some_channel post st src =
     (isNameInTitle (titleNormalized post) src = Inr True
      \<or> isTwitterInTitle (titleNormalized post) src = Inr True
      \<or> (case url post of
            None \<Rightarrow> False
          | Some u \<Rightarrow> isTwitterInUrl u src = Inr True \<or> isDomainInUrl u src = Inr True)
      \<or> (case links post of
            None \<Rightarrow> False
          | Some urls \<Rightarrow> isTwitterInLinks urls src = Inr True \<or> isDomainInLinks urls src = Inr True)
      \<or> (case bodyNormalized post of
            None \<Rightarrow> False
          | Some body \<Rightarrow>
              body \<noteq> [] \<and> analyzePostBody st
              \<and> (isNameInBody body src = Inr True \<or> isTwitterInBody body src = Inr True)))"

definition registered_match :: "postdata \<Rightarrow> settings \<Rightarrow> source \<Rightarrow> bool" where
  "registered_match post st src = (src \<in> set (sources st) \<and> matches_some_channel post st src)"




text \<open>
  The characters with a meaning in a pattern. A text without them (\<open>literal_text\<close>) is
  read by \<^verbatim>\<open>new RegExp\<close> as the sequence of its characters. A domain may also hold periods,
  which the matcher escapes (\<open>domain_text\<close>).
\<close>

definition syntax_chars :: string where
  "syntax_chars = bs # ''^$.*+?()[{|''"

definition plain_char :: "char \<Rightarrow> bool" where
  "plain_char c = (c \<notin> set syntax_chars)"

definition literal_text :: "string \<Rightarrow> bool" where
  "literal_text w = list_all plain_char w"



text \<open>\<open>w\<close> occurs in \<open>s\<close> at position \<open>x\<close>, compared as the \<^verbatim>\<open>i\<close> flag says.\<close>

definition lit_at :: "bool \<Rightarrow> string \<Rightarrow> nat \<Rightarrow> string \<Rightarrow> bool" where
  "lit_at ic s x w =
     (x + length w \<le> length s
      \<and> map (canonicalize ic) (take (length w) (drop x s)) = map (canonicalize ic) w)"

definition same_ignoring_case :: "string \<Rightarrow> string \<Rightarrow> bool" where
  "same_ignoring_case a b = (map upper_char a = map upper_char b)"

text \<open>
  The surface forms of the specification, on the text itself. \<open>whole_word_in\<close>: an occurrence
  of the name with no word character next to it on either side. \<open>starts_with_colon\<close>: the
  text begins with the name and a colon. \<open>enclosed_in\<close>: an occurrence between an opening
  parenthesis or square bracket and a closing one. \<open>mentioned_in\<close>: an occurrence right after
  an \<^verbatim>\<open>@\<close> and not followed by a word character.
\<close>

definition whole_word_in :: "string \<Rightarrow> string \<Rightarrow> bool" where
  "whole_word_in w s =
     (\<exists>pre mid post. s = pre @ mid @ post \<and> same_ignoring_case mid w
        \<and> (pre = [] \<or> \<not> is_word_char (last pre))
        \<and> (post = [] \<or> \<not> is_word_char (hd post)))"

definition starts_with_colon :: "string \<Rightarrow> string \<Rightarrow> bool" where
  "starts_with_colon w s =
     (\<exists>mid rest. s = mid @ CHR '':'' # rest \<and> same_ignoring_case mid w)"

definition enclosed_in :: "string \<Rightarrow> string \<Rightarrow> bool" where
  "enclosed_in w s =
     (\<exists>pre ob mid cb post. s = pre @ ob # mid @ cb # post
        \<and> (ob = CHR ''('' \<or> ob = CHR ''['') \<and> (cb = CHR '')'' \<or> cb = CHR '']'')
        \<and> same_ignoring_case mid w)"

definition mentioned_in :: "string \<Rightarrow> string \<Rightarrow> bool" where
  "mentioned_in w s =
     (\<exists>pre mid post. s = pre @ CHR ''@'' # mid @ post \<and> same_ignoring_case mid w
        \<and> (post = [] \<or> \<not> is_word_char (hd post)))"

definition handle_marked_in :: "string \<Rightarrow> string \<Rightarrow> bool" where
  "handle_marked_in t s =
     (starts_with_colon t s
      \<or> (\<exists>rest. s = CHR ''@'' # rest \<and> starts_with_colon t rest)
      \<or> mentioned_in t s
      \<or> enclosed_in t s)"

text \<open>
  The host is the domain, or ends with a period and the domain. The part before that period
  holds no line terminator (the dot of a pattern does not match one; a parsed hostname has
  none).
\<close>

definition host_matches :: "string \<Rightarrow> string \<Rightarrow> bool" where
  "host_matches d h =
     (h = d \<or> (\<exists>p. h = p @ CHR ''.'' # d \<and> \<not> list_ex is_line_terminator p))"

text \<open>
  A matcher is \<open>forward\<close> when it calls its continuation only at positions from its own
  position up to the end of the input.
\<close>

definition bounded_from :: "string \<Rightarrow> nat \<Rightarrow> continuation \<Rightarrow> continuation" where
  "bounded_from s x c = (\<lambda>y. x \<le> y \<and> y \<le> length s \<and> c y)"

definition forward :: "string \<Rightarrow> matcher \<Rightarrow> bool" where
  "forward s m = (\<forall>x c. x \<le> length s \<longrightarrow> m x c = m x (bounded_from s x c))"

text \<open>The invariant of the result map: distinct keys, each the id of its value.\<close>

definition map_inv :: "(source \<Rightarrow> bool) \<Rightarrow> (string \<times> source) list \<Rightarrow> bool" where
  "map_inv P m = (distinct (map fst m) \<and> (\<forall>(k, v) \<in> set m. k = source_id v \<and> P v))"


section \<open>Sample registry entries and posts\<close>

definition settings_of :: "source list \<Rightarrow> settings" where
  "settings_of srcs =
     \<lparr>sources = srcs, flairTemplateId = [], flairCssClass = [], commentFooter = [],
      analyzePostBody = True, ignoredUsers = [], errorReportSubredditName = []\<rparr>"

definition title_post :: "string \<Rightarrow> postdata" where
  "title_post title =
     \<lparr>pd_id = ''t3_1'', subredditName = ''soccer'', titleNormalized = title,
      bodyNormalized = None, url = None, links = None\<rparr>"

definition foo_handle_source :: source where
  "foo_handle_source =
     sourceSchema ''s1'' ''Foo'' False Journalist (Some 1) None (Some ''foo'') None"

definition foo_common_source :: source where
  "foo_common_source = sourceSchema ''s2'' ''Foo'' True Media (Some 2) None None None"




definition tier1_source :: source where
  "tier1_source = sourceSchema ''s6'' ''Bar'' False Media (Some 1) None None None"












section \<open>Properties\<close>

subsection \<open>The fuel of the repeat matcher\<close>

text \<open>
  Every matcher of the model is forward, so an iteration of a quantifier either lowers the
  minimum or starts further right, and the fuel that \<open>m_node\<close> passes is never used up:
  any larger amount gives the same result (\<open>quantifier_fuel\<close>).
\<close>

lemma bounded_from_twice:
  "x \<le> y \<Longrightarrow> bounded_from s y (bounded_from s x c) = bounded_from s y c"
  by (auto simp: bounded_from_def)

lemma forwardD: "forward s m \<Longrightarrow> x \<le> length s \<Longrightarrow> m x c = m x (bounded_from s x c)"
  unfolding forward_def by blast

lemma forward_cong:
  assumes "forward s m" "x \<le> length s"
    and "\<And>y. x \<le> y \<Longrightarrow> y \<le> length s \<Longrightarrow> c y = c' y"
  shows "m x c = m x c'"
proof -
  have "bounded_from s x c = bounded_from s x c'"
    using assms(3) by (auto simp: bounded_from_def)
  then show ?thesis
    using forwardD [OF assms(1,2), of c] forwardD [OF assms(1,2), of c'] by simp
qed

lemma repeat_matcher_forward:
  assumes "forward s m"
  shows "x \<le> length s \<Longrightarrow>
         repeat_matcher m fuel mn mx g x c = repeat_matcher m fuel mn mx g x (bounded_from s x c)"
proof (induction fuel arbitrary: x mn mx c)
  case 0
  then show ?case by (simp add: bounded_from_def)
next
  case (Suc fuel)
  let ?d = "\<lambda>c y. if mn = 0 \<and> y = x then False
                 else repeat_matcher m fuel (mn - 1) (map_option (\<lambda>k. k - 1) mx) g y c"
  have dy: "?d c y = ?d (bounded_from s x c) y" if "x \<le> y" "y \<le> length s" for y
  proof -
    have "repeat_matcher m fuel (mn - 1) (map_option (\<lambda>k. k - 1) mx) g y (bounded_from s x c)
        = repeat_matcher m fuel (mn - 1) (map_option (\<lambda>k. k - 1) mx) g y
            (bounded_from s y (bounded_from s x c))"
      by (rule Suc.IH [OF that(2)])
    also have "\<dots> = repeat_matcher m fuel (mn - 1) (map_option (\<lambda>k. k - 1) mx) g y
            (bounded_from s y c)"
      by (simp only: bounded_from_twice [OF that(1)])
    also have "\<dots> = repeat_matcher m fuel (mn - 1) (map_option (\<lambda>k. k - 1) mx) g y c"
      by (rule Suc.IH [OF that(2), symmetric])
    finally show ?thesis by (simp only:)
  qed
  have dd: "m x (?d c) = m x (?d (bounded_from s x c))"
    by (rule forward_cong [OF assms Suc.prems]) (rule dy)
  have bx: "bounded_from s x c x = c x"
    using Suc.prems by (simp add: bounded_from_def)
  show ?case
    by (simp only: repeat_matcher.simps(2) Let_def dd bx)
qed

lemma repeat_matcher_fuel:
  assumes "forward s m"
  shows "x \<le> length s \<Longrightarrow> mn + (length s - x) < fuel \<Longrightarrow> mn + (length s - x) < fuel'
         \<Longrightarrow> repeat_matcher m fuel mn mx g x c = repeat_matcher m fuel' mn mx g x c"
proof (induction fuel arbitrary: x mn mx fuel')
  case 0
  then show ?case by simp
next
  case (Suc fuel)
  obtain f' where f': "fuel' = Suc f'"
    using Suc.prems(3) by (cases fuel') auto
  let ?d = "\<lambda>f y. if mn = 0 \<and> y = x then False
                 else repeat_matcher m f (mn - 1) (map_option (\<lambda>k. k - 1) mx) g y c"
  have dy: "?d fuel y = ?d f' y" if "x \<le> y" "y \<le> length s" for y
  proof (cases "mn = 0 \<and> y = x")
    case True
    then show ?thesis by simp
  next
    case False
    then have "(mn - 1) + (length s - y) < fuel" "(mn - 1) + (length s - y) < f'"
      using Suc.prems(2,3) that f' by auto
    then have "repeat_matcher m fuel (mn - 1) (map_option (\<lambda>k. k - 1) mx) g y c
        = repeat_matcher m f' (mn - 1) (map_option (\<lambda>k. k - 1) mx) g y c"
      by (rule Suc.IH [OF that(2)])
    then show ?thesis by (simp only:)
  qed
  have dd: "m x (?d fuel) = m x (?d f')"
    by (rule forward_cong [OF assms Suc.prems(1)]) (rule dy)
  show ?case
    by (simp only: f' repeat_matcher.simps(2) Let_def dd)
qed

lemma forward_seq:
  "(\<And>t. t \<in> set ts \<Longrightarrow> forward s (m_node ic s t)) \<Longrightarrow> forward s (m_seq ic s ts)"
proof (induction ts)
  case Nil
  show ?case by (simp add: forward_def bounded_from_def)
next
  case (Cons t ts)
  have ft: "forward s (m_node ic s t)" and fs: "forward s (m_seq ic s ts)"
    using Cons by simp_all
  show ?case
    unfolding forward_def
  proof (intro allI impI)
    fix x c
    assume x: "x \<le> length s"
    have "m_seq ic s ts y c = m_seq ic s ts y (bounded_from s x c)"
      if "x \<le> y" "y \<le> length s" for y
      using forwardD [OF fs that(2), of c] forwardD [OF fs that(2), of "bounded_from s x c"]
      by (simp add: bounded_from_twice [OF that(1)])
    then have "m_node ic s t x (\<lambda>y. m_seq ic s ts y c)
        = m_node ic s t x (\<lambda>y. m_seq ic s ts y (bounded_from s x c))"
      by (intro forward_cong [OF ft x]) simp
    then show "m_seq ic s (t # ts) x c = m_seq ic s (t # ts) x (bounded_from s x c)"
      by simp
  qed
qed

lemma forward_alts:
  "(\<And>a. a \<in> set ds \<Longrightarrow> forward s (m_seq ic s a)) \<Longrightarrow> forward s (m_alts ic s ds)"
proof (induction ds)
  case Nil
  show ?case by (simp add: forward_def)
next
  case (Cons a ds)
  have fa: "forward s (m_seq ic s a)" and fd: "forward s (m_alts ic s ds)"
    using Cons by simp_all
  show ?case
    unfolding forward_def
  proof (intro allI impI)
    fix x c
    assume x: "x \<le> length s"
    have e1: "m_seq ic s a x c = m_seq ic s a x (bounded_from s x c)"
      by (rule forwardD [OF fa x])
    have e2: "m_alts ic s ds x c = m_alts ic s ds x (bounded_from s x c)"
      by (rule forwardD [OF fd x])
    show "m_alts ic s (a # ds) x c = m_alts ic s (a # ds) x (bounded_from s x c)"
      unfolding m_alts.simps by (rule arg_cong2 [where f = "(\<or>)", OF e1 e2])
  qed
qed

lemma forward_node: "forward s (m_node ic s r)"
proof (induction r)
  case (Chr ch)
  show ?case by (auto simp: forward_def bounded_from_def)
next
  case Dot
  show ?case by (auto simp: forward_def bounded_from_def)
next
  case (ClassEsc neg k)
  show ?case by (auto simp: forward_def bounded_from_def)
next
  case (Assert a)
  show ?case by (auto simp: forward_def bounded_from_def)
next
  case (Group ds)
  have "forward s (m_seq ic s a)" if a: "a \<in> set ds" for a
    by (rule forward_seq) (rule Group [OF a])
  then have "forward s (m_alts ic s ds)"
    by (rule forward_alts)
  then show ?case
    unfolding forward_def by (simp only: m_node.simps(5))
next
  case (Quant mn mx greedy r)
  show ?case
    unfolding forward_def
  proof (intro allI impI)
    fix x c
    assume x: "x \<le> length s"
    show "m_node ic s (Quant mn mx greedy r) x c
            = m_node ic s (Quant mn mx greedy r) x (bounded_from s x c)"
      by (simp only: m_node.simps(6)) (rule repeat_matcher_forward [OF Quant x])
  qed
qed

lemma quantifier_fuel:
  "x \<le> length s \<Longrightarrow> mn + (length s - x) < fuel
   \<Longrightarrow> repeat_matcher (\<lambda>y d. m_node ic s r y d) fuel mn mx g x c
       = m_node ic s (Quant mn mx g r) x c"
proof -
  assume "x \<le> length s" "mn + (length s - x) < fuel"
  then have "repeat_matcher (\<lambda>y d. m_node ic s r y d) fuel mn mx g x c
       = repeat_matcher (\<lambda>y d. m_node ic s r y d) (mn + (length s - x) + 1) mn mx g x c"
    by (intro repeat_matcher_fuel [OF forward_node]) simp_all
  then show ?thesis by (simp only: m_node.simps)
qed

subsection \<open>The result map\<close>

lemma Map_set_keys:
  "map fst (Map_set k v m) = (if k \<in> set (map fst m) then map fst m else map fst m @ [k])"
  by (induction k v m rule: Map_set.induct) (auto simp: image_iff)

lemma Map_set_distinct: "distinct (map fst m) \<Longrightarrow> distinct (map fst (Map_set k v m))"
  by (simp add: Map_set_keys)

lemma Map_set_entries: "set (Map_set k v m) \<subseteq> insert (k, v) (set m)"
  by (induction k v m rule: Map_set.induct) auto

lemma map_inv_empty: "map_inv P []"
  by (simp add: map_inv_def)

lemma map_inv_set: "map_inv P m \<Longrightarrow> P src \<Longrightarrow> map_inv P (Map_set (source_id src) src m)"
  unfolding map_inv_def using Map_set_entries [of "source_id src" src m]
  by (auto simp: Map_set_distinct)

lemma scan_sources_inv:
  "scan_sources p1 p2 srcs m = Inr m' \<Longrightarrow> map_inv P m
   \<Longrightarrow> (\<And>src. src \<in> set srcs \<Longrightarrow> p1 src = Inr True \<or> p2 src = Inr True \<Longrightarrow> P src)
   \<Longrightarrow> map_inv P m'"
proof (induction srcs arbitrary: m)
  case Nil
  then show ?case by simp
next
  case (Cons src rest)
  show ?case
  proof (cases "p1 src = Inr True \<or> p2 src = Inr True")
    case True
    then have "scan_sources p1 p2 rest (Map_set (source_id src) src m) = Inr m'"
      using Cons.prems(1) by (auto split: sum.splits bool.splits)
    moreover have "map_inv P (Map_set (source_id src) src m)"
      using Cons.prems(2,3) True by (simp add: map_inv_set)
    ultimately show ?thesis using Cons.IH Cons.prems(3) by simp
  next
    case False
    then have "scan_sources p1 p2 rest m = Inr m'"
      using Cons.prems(1) by (auto split: sum.splits bool.splits)
    then show ?thesis using Cons.IH Cons.prems(2,3) by simp
  qed
qed


subsection \<open>Sorting\<close>

lemma insert_sorted_tier: "insert_sorted tier_compare x ys = insort_key tier_or_6 x ys"
  by (induction ys) (simp_all add: tier_compare_def)

lemma Array_sort_tier: "Array_sort tier_compare xs = sort_key tier_or_6 xs"
proof -
  have "insert_sorted tier_compare = insort_key tier_or_6"
    by (intro ext) (rule insert_sorted_tier)
  then show ?thesis by (simp add: Array_sort_def sort_key_def)
qed

lemma distinct_map_sort_key: "distinct (map g (sort_key f xs)) = distinct (map g xs)"
  by (simp add: distinct_map)

lemma collectMatches_inv:
  assumes "collectMatches post st = Inr m"
  shows "map_inv (registered_match post st) m"
proof -
  let ?P = "registered_match post st"
  obtain l1 where l1: "findMatchesInTitle (titleNormalized post) (sources st) [] = Inr l1"
    using assms by (auto simp: collectMatches_def split: sum.splits)
  have i1: "map_inv ?P l1"
    using l1 unfolding findMatchesInTitle_def
    by (rule scan_sources_inv) (auto simp: map_inv_empty registered_match_def matches_some_channel_def)
  obtain l2 where l2: "(case url post of None \<Rightarrow> Inr l1
            | Some u \<Rightarrow> findMatchesInUrl u (sources st) l1) = Inr l2"
    using assms l1 by (auto simp: collectMatches_def split: sum.splits)
  have i2: "map_inv ?P l2"
  proof (cases "url post")
    case None
    then show ?thesis using l2 i1 by simp
  next
    case (Some u)
    then have "scan_sources (isTwitterInUrl u) (isDomainInUrl u) (sources st) l1 = Inr l2"
      using l2 by (simp add: findMatchesInUrl_def)
    then show ?thesis using i1
      by (rule scan_sources_inv) (auto simp: Some registered_match_def matches_some_channel_def)
  qed
  obtain l3 where l3: "(case links post of None \<Rightarrow> Inr l2
            | Some urls \<Rightarrow> findMatchesInLinks urls (sources st) l2) = Inr l3"
    using assms l1 l2 by (auto simp: collectMatches_def split: sum.splits)
  have i3: "map_inv ?P l3"
  proof (cases "links post")
    case None
    then show ?thesis using l3 i2 by simp
  next
    case (Some urls)
    then have "scan_sources (isTwitterInLinks urls) (isDomainInLinks urls) (sources st) l2 = Inr l3"
      using l3 by (simp add: findMatchesInLinks_def)
    then show ?thesis using i2
      by (rule scan_sources_inv) (auto simp: Some registered_match_def matches_some_channel_def)
  qed
  have l4: "(case bodyNormalized post of
        None \<Rightarrow> Inr l3
      | Some body \<Rightarrow>
          if body \<noteq> [] \<and> analyzePostBody st
          then findMatchesInBody body (sources st) l3
          else Inr l3) = Inr m"
    using assms l1 l2 l3 by (simp add: collectMatches_def)
  show ?thesis
  proof (cases "bodyNormalized post")
    case None
    then show ?thesis using l4 i3 by simp
  next
    case (Some body)
    show ?thesis
    proof (cases "body \<noteq> [] \<and> analyzePostBody st")
      case True
      then have "scan_sources (isNameInBody body) (isTwitterInBody body) (sources st) l3 = Inr m"
        using l4 Some by (simp add: findMatchesInBody_def)
      then show ?thesis using i3
        by (rule scan_sources_inv)
           (use True in \<open>auto simp: Some registered_match_def matches_some_channel_def\<close>)
    next
      case False
      then show ?thesis using l4 i3 Some by auto
    qed
  qed
qed

lemma findSourcesInPost_result:
  "findSourcesInPost post st = Inr (Some result)
   \<Longrightarrow> \<exists>m. collectMatches post st = Inr m \<and> result = sort_key tier_or_6 (Map_values m)"
  by (auto simp: findSourcesInPost_def Let_def Array_sort_tier split: sum.splits if_splits)

subsection \<open>Soundness of the result\<close>

text \<open>
  Claim C10. Every element of a non-null result of \<^verbatim>\<open>findSourcesInPost\<close> is an element of
  \<^verbatim>\<open>settings.sources\<close> that satisfies at least one channel predicate for the post (name or
  handle in the title; handle or domain in the primary URL; handle or domain in the links;
  name or handle in the body, only when a body is present and \<^verbatim>\<open>analyzePostBody\<close> is
  enabled), and no two elements of the result have the same id.
\<close>

theorem findSourcesInPost_sound:
  assumes "findSourcesInPost post st = Inr (Some result)"
  shows "(\<forall>src \<in> set result. src \<in> set (sources st) \<and> matches_some_channel post st src)
         \<and> distinct (map source_id result)"
proof -
  obtain m where m: "collectMatches post st = Inr m"
    and r: "result = sort_key tier_or_6 (Map_values m)"
    using findSourcesInPost_result [OF assms] by blast
  have inv: "map_inv (registered_match post st) m"
    using m by (rule collectMatches_inv)
  have ids: "map source_id (Map_values m) = map fst m"
    using inv by (auto simp: map_inv_def Map_values_def)
  have "distinct (map source_id result)"
    using inv by (simp add: r distinct_map_sort_key ids map_inv_def)
  moreover have "\<forall>src \<in> set result. registered_match post st src"
    using inv by (auto simp: r map_inv_def Map_values_def)
  ultimately show ?thesis by (simp add: registered_match_def)
qed

text \<open>A post whose title names one source of a registry of two.\<close>

theorem findSourcesInPost_sound_witness:
  "findSourcesInPost (title_post ''foo says hello'')
       (settings_of [tier1_source, foo_handle_source]) = Inr (Some [foo_handle_source])
   \<and> foo_handle_source \<in> set (sources (settings_of [tier1_source, foo_handle_source]))
   \<and> matches_some_channel (title_post ''foo says hello'')
        (settings_of [tier1_source, foo_handle_source]) foo_handle_source
   \<and> distinct (map source_id [foo_handle_source])"
proof -
  have h: "findSourcesInPost (title_post ''foo says hello'')
       (settings_of [tier1_source, foo_handle_source]) = Inr (Some [foo_handle_source])"
    by code_simp
  show ?thesis using h findSourcesInPost_sound [OF h] by simp
qed

subsection \<open>Order of the result\<close>




subsection \<open>Malformed patterns\<close>

















subsection \<open>Handles in links\<close>

text \<open>
  The two handle patterns for URLs denote the same expression, so a link that satisfies the
  single-URL predicate satisfies the links predicate.
\<close>

lemma twitter_links_pattern_parse:
  "parse_pattern (twitter_links_pattern t) = parse_pattern (twitter_url_pattern t)"
  by (simp add: twitter_links_pattern_def twitter_url_pattern_def parse_pattern_def
      init_pstate_def step_def normal_step_def escape_step_def push_atom_def push_assertion_def
      bs_def is_digit_def code_def)

lemma isTwitterInUrl_in_links:
  assumes "isTwitterInUrl u src = Inr True" "u \<in> set urls"
  shows "isTwitterInLinks urls src = Inr True"
proof -
  obtain t where t: "handle_of src = Some t"
    using assms(1) by (cases "handle_of src") (auto simp: isTwitterInUrl_def)
  have "RegExp_test (twitter_url_pattern t) ''i'' (pathname u) = Inr True"
    using assms(1) t by (auto simp: isTwitterInUrl_def split: if_splits)
  then obtain r where r: "RegExp_new (twitter_url_pattern t) ''i'' = Inr r" "test r (pathname u)"
    by (auto simp: RegExp_test_def split: sum.splits)
  have "RegExp_new (twitter_links_pattern t) ''i'' = Inr r"
    using r(1) by (simp add: RegExp_new_def twitter_links_pattern_parse)
  then show ?thesis
    using t r(2) assms(2) by (auto simp: isTwitterInLinks_def list_ex_iff)
qed

text \<open>
  Claim C1 at the input where the code departs from it: a link to another host whose path
  is the handle. The single-URL predicate rejects it for its hostname; the links predicate
  never looks at the hostname and accepts it.
\<close>

theorem isTwitterInLinks_ignores_hostname:
  "isTwitterInLinks [\<lparr>hostname = ''bar.com'', pathname = ''/foo''\<rparr>] foo_handle_source = Inr True
   \<and> isTwitterInUrl \<lparr>hostname = ''bar.com'', pathname = ''/foo''\<rparr> foo_handle_source = Inr False"
  by code_simp

subsection \<open>Names in the body\<close>

text \<open>
  A fresh global expression starts at index 0, so the \<^verbatim>\<open>g\<close> flag changes no result: the
  body predicates agree with the title predicates for handles and for uncommon names.
\<close>

lemma RegExp_test_global: "RegExp_test p ''gi'' s = RegExp_test p ''i'' s"
  by (cases "parse_pattern p") (simp_all add: RegExp_test_def RegExp_new_def test_def)

lemma isNameInBody_uncommon:
  "\<not> nameIsCommon src \<Longrightarrow> isNameInBody text src = isNameInTitle text src"
  by (simp add: isNameInBody_def isNameInTitle_def RegExp_test_global)

lemma isTwitterInBody_as_title: "isTwitterInBody text src = isTwitterInTitle text src"
  by (simp add: isTwitterInBody_def isTwitterInTitle_def RegExp_test_global split: option.splits)

text \<open>
  Claim C4 at the input where the code departs from it: a common name followed by a colon
  in the middle of the text. The title pattern anchors this form at the start of the text;
  the body pattern has no anchor.
\<close>

theorem isNameInBody_unanchored:
  "isNameInTitle ''a foo: b'' foo_common_source = Inr False
   \<and> isNameInBody ''a foo: b'' foo_common_source = Inr True"
  by code_simp

subsection \<open>The URLs of the post data\<close>





subsection \<open>Characters and case\<close>








subsection \<open>Parsing the patterns of the matcher\<close>

lemma run_append:
  "run (a @ b) st = (case run a st of Inl e \<Rightarrow> Inl e | Inr st' \<Rightarrow> run b st')"
  by (induction a arbitrary: st) (auto split: sum.splits)

lemma step_plain:
  "plain_char c \<Longrightarrow>
   step c \<lparr>mode = Normal, cur = cu, alts = a, stack = sk, q = qq\<rparr>
     = Inr \<lparr>mode = Normal, cur = Chr c # cu, alts = a, stack = sk, q = Atom\<rparr>"
  by (simp add: plain_char_def syntax_chars_def step_def normal_step_def push_atom_def)

lemma run_plain:
  "literal_text w \<Longrightarrow>
   run w \<lparr>mode = Normal, cur = cu, alts = a, stack = sk, q = qq\<rparr>
     = Inr \<lparr>mode = Normal, cur = rev (map Chr w) @ cu, alts = a, stack = sk,
            q = (if w = [] then qq else Atom)\<rparr>"
  by (induction w arbitrary: cu qq) (simp_all add: literal_text_def step_plain)

lemmas parse_simps =
  parse_pattern_def init_pstate_def run_append run_plain step_def normal_step_def escape_step_def
  push_atom_def push_assertion_def quantify_def make_lazy_def open_group_def close_group_def
  next_alternative_def finish_def bs_def is_digit_def code_def



lemma parse_name_common_body_pattern:
  "literal_text n \<Longrightarrow>
   parse_pattern (name_common_body_pattern n)
     = Inr [map Chr n @ [Chr (CHR '':'')],
            Group [[Chr (CHR ''['')], [Chr (CHR ''('')]] # map Chr n
              @ [Group [[Chr (CHR '']'')], [Chr (CHR '')'')]]]]"
  by (simp add: name_common_body_pattern_def parse_simps)


lemma parse_twitter_url_pattern:
  "literal_text t \<Longrightarrow>
   parse_pattern (twitter_url_pattern t)
     = Inr [Assert Bol # Chr (CHR ''/'') # map Chr t
              @ [Group [[Chr (CHR ''/'')], [ClassEsc False Space], [Assert Eol]]]]"
  by (simp add: twitter_url_pattern_def parse_simps)

lemma parse_twitter_links_pattern:
  "literal_text t \<Longrightarrow>
   parse_pattern (twitter_links_pattern t) = parse_pattern (twitter_url_pattern t)"
  by (simp add: twitter_links_pattern_def twitter_url_pattern_def parse_simps)

subsection \<open>Matching a literal text\<close>

lemma m_seq_append:
  "m_seq ic s (ts @ us) x c = m_seq ic s ts x (\<lambda>y. m_seq ic s us y c)"
  by (induction ts arbitrary: x) simp_all




lemma lit_at_decomp:
  "lit_at ic s x w
     = (\<exists>pre mid post. s = pre @ mid @ post \<and> length pre = x
          \<and> map (canonicalize ic) mid = map (canonicalize ic) w)"
proof
  assume l: "lit_at ic s x w"
  let ?pre = "take x s" and ?mid = "take (length w) (drop x s)"
    and ?post = "drop (length w) (drop x s)"
  have "?pre @ (?mid @ ?post) = s" by (simp only: append_take_drop_id)
  then have "s = ?pre @ ?mid @ ?post" by simp
  moreover have "length ?pre = x" using l by (simp add: lit_at_def)
  moreover have "map (canonicalize ic) ?mid = map (canonicalize ic) w"
    using l by (simp add: lit_at_def)
  ultimately show "\<exists>pre mid post. s = pre @ mid @ post \<and> length pre = x
          \<and> map (canonicalize ic) mid = map (canonicalize ic) w"
    by blast
next
  assume "\<exists>pre mid post. s = pre @ mid @ post \<and> length pre = x
          \<and> map (canonicalize ic) mid = map (canonicalize ic) w"
  then obtain pre mid post where d: "s = pre @ mid @ post" "length pre = x"
    "map (canonicalize ic) mid = map (canonicalize ic) w" by blast
  have "length mid = length w"
    using d(3) by (rule map_eq_imp_length_eq)
  then show "lit_at ic s x w"
    using d by (simp add: lit_at_def)
qed

lemma list_ex_upto: "list_ex P [0..<Suc n] = (\<exists>x. x \<le> n \<and> P x)"
proof -
  have "list_ex P [0..<Suc n] = (\<exists>x \<in> {0..<Suc n}. P x)"
    by (simp only: list_ex_iff set_upt)
  also have "\<dots> = (\<exists>x. x \<le> n \<and> P x)"
    by (metis atLeastLessThan_iff le0 less_Suc_eq_le)
  finally show ?thesis .
qed



subsection \<open>Word boundaries around an occurrence\<close>

lemma is_word_before_decomp:
  "is_word_before (pre @ rest) (length pre) = (pre \<noteq> [] \<and> is_word_char (last pre))"
  by (cases pre rule: rev_cases) (auto simp: is_word_before_def nth_append)

lemma is_word_at_decomp:
  "is_word_at (pre @ rest) (length pre) = (rest \<noteq> [] \<and> is_word_char (hd rest))"
  by (cases rest) (auto simp: is_word_at_def nth_append)



lemma canonicalize_True: "map (canonicalize True) a = map (canonicalize True) b \<longleftrightarrow> same_ignoring_case a b"
proof -
  have "canonicalize True = upper_char"
    by (rule ext) (simp add: canonicalize_def)
  then show ?thesis by (simp add: same_ignoring_case_def)
qed





subsection \<open>Names in the title\<close>





subsection \<open>Occurrences as decompositions of the text\<close>

lemma headed_positions:
  "(lit_at ic s x w \<and> x + length w < length s \<and> s ! (x + length w) = ch)
     = (\<exists>pre mid post. s = pre @ mid @ ch # post \<and> length pre = x
          \<and> map (canonicalize ic) mid = map (canonicalize ic) w)"
proof
  assume a: "lit_at ic s x w \<and> x + length w < length s \<and> s ! (x + length w) = ch"
  then obtain pre mid post where d: "s = pre @ mid @ post" "length pre = x"
    "map (canonicalize ic) mid = map (canonicalize ic) w"
    unfolding lit_at_decomp by blast
  have l: "length mid = length w"
    using d(3) by (rule map_eq_imp_length_eq)
  have "post \<noteq> []" using a d(1,2) l by auto
  moreover have "s ! (x + length w) = hd post"
    using d(1,2) l calculation by (simp add: nth_append hd_conv_nth)
  ultimately have "post = ch # tl post" using a by (cases post) auto
  then show "\<exists>pre mid post. s = pre @ mid @ ch # post \<and> length pre = x
          \<and> map (canonicalize ic) mid = map (canonicalize ic) w"
    using d by metis
next
  assume "\<exists>pre mid post. s = pre @ mid @ ch # post \<and> length pre = x
          \<and> map (canonicalize ic) mid = map (canonicalize ic) w"
  then obtain pre mid post where d: "s = pre @ mid @ ch # post" "length pre = x"
    "map (canonicalize ic) mid = map (canonicalize ic) w" by blast
  have l: "length mid = length w"
    using d(3) by (rule map_eq_imp_length_eq)
  have "lit_at ic s x w" unfolding lit_at_decomp using d by blast
  moreover have "s ! (x + length w) = ch"
    using d(1,2) l by (simp add: nth_append)
  moreover have "x + length w < length s"
    using d(1,2) l by simp
  ultimately show "lit_at ic s x w \<and> x + length w < length s \<and> s ! (x + length w) = ch"
    by blast
qed

lemma snoc_prefix:
  "s = pre' @ rest \<Longrightarrow> length pre' = Suc x \<Longrightarrow> s ! x = ob
   \<Longrightarrow> \<exists>pre. pre' = pre @ [ob] \<and> length pre = x"
  by (cases pre' rule: rev_cases) (auto simp: nth_append)

lemma prefixed_positions:
  "(x < length s \<and> s ! x = ob \<and> lit_at ic s (Suc x) w)
     = (\<exists>pre mid post. s = pre @ ob # mid @ post \<and> length pre = x
          \<and> map (canonicalize ic) mid = map (canonicalize ic) w)"
proof
  assume a: "x < length s \<and> s ! x = ob \<and> lit_at ic s (Suc x) w"
  then obtain pre' mid post where d: "s = pre' @ mid @ post" "length pre' = Suc x"
    "map (canonicalize ic) mid = map (canonicalize ic) w"
    unfolding lit_at_decomp by blast
  obtain pre where "pre' = pre @ [ob]" "length pre = x"
    using snoc_prefix [OF d(1,2)] a by blast
  then show "\<exists>pre mid post. s = pre @ ob # mid @ post \<and> length pre = x
          \<and> map (canonicalize ic) mid = map (canonicalize ic) w"
    using d by auto
next
  assume "\<exists>pre mid post. s = pre @ ob # mid @ post \<and> length pre = x
          \<and> map (canonicalize ic) mid = map (canonicalize ic) w"
  then obtain pre mid post where d: "s = pre @ ob # mid @ post" "length pre = x"
    "map (canonicalize ic) mid = map (canonicalize ic) w" by blast
  have "s = (pre @ [ob]) @ mid @ post" "length (pre @ [ob]) = Suc x"
    using d(1,2) by simp_all
  then have "lit_at ic s (Suc x) w"
    unfolding lit_at_decomp using d(3) by blast
  then show "x < length s \<and> s ! x = ob \<and> lit_at ic s (Suc x) w"
    using d(1,2) by (auto simp: nth_append)
qed

lemma framed_positions:
  "(x < length s \<and> s ! x = ob \<and> lit_at ic s (Suc x) w
      \<and> Suc x + length w < length s \<and> s ! (Suc x + length w) = cb)
     = (\<exists>pre mid post. s = pre @ ob # mid @ cb # post \<and> length pre = x
          \<and> map (canonicalize ic) mid = map (canonicalize ic) w)"
proof
  assume a: "x < length s \<and> s ! x = ob \<and> lit_at ic s (Suc x) w
      \<and> Suc x + length w < length s \<and> s ! (Suc x + length w) = cb"
  then obtain pre' mid post where d: "s = pre' @ mid @ cb # post" "length pre' = Suc x"
    "map (canonicalize ic) mid = map (canonicalize ic) w"
    using headed_positions [of ic s "Suc x" w cb] by blast
  obtain pre where "pre' = pre @ [ob]" "length pre = x"
    using snoc_prefix [OF d(1,2)] a by blast
  then show "\<exists>pre mid post. s = pre @ ob # mid @ cb # post \<and> length pre = x
          \<and> map (canonicalize ic) mid = map (canonicalize ic) w"
    using d by auto
next
  assume "\<exists>pre mid post. s = pre @ ob # mid @ cb # post \<and> length pre = x
          \<and> map (canonicalize ic) mid = map (canonicalize ic) w"
  then obtain pre mid post where d: "s = pre @ ob # mid @ cb # post" "length pre = x"
    "map (canonicalize ic) mid = map (canonicalize ic) w" by blast
  have "s = (pre @ [ob]) @ mid @ cb # post" "length (pre @ [ob]) = Suc x"
    using d(1,2) by simp_all
  then have "lit_at ic s (Suc x) w \<and> Suc x + length w < length s \<and> s ! (Suc x + length w) = cb"
    unfolding headed_positions using d(3) by blast
  then show "x < length s \<and> s ! x = ob \<and> lit_at ic s (Suc x) w
      \<and> Suc x + length w < length s \<and> s ! (Suc x + length w) = cb"
    using d(1,2) by (auto simp: nth_append)
qed











lemma starts_with_colon_positions:
  "(lit_at True s 0 n \<and> 0 + length n < length s \<and> s ! (0 + length n) = CHR '':'')
     = starts_with_colon n s"
proof -
  have "(\<exists>pre mid post. s = pre @ mid @ CHR '':'' # post \<and> length pre = 0
          \<and> map (canonicalize True) mid = map (canonicalize True) n)
        = starts_with_colon n s"
    unfolding starts_with_colon_def canonicalize_True by auto
  then show ?thesis unfolding headed_positions .
qed


lemma enclosed_positions:
  "(\<exists>x ob cb. (ob = CHR ''('' \<or> ob = CHR ''['') \<and> (cb = CHR '')'' \<or> cb = CHR '']'')
       \<and> x < length s \<and> s ! x = ob \<and> lit_at True s (Suc x) n
       \<and> Suc x + length n < length s \<and> s ! (Suc x + length n) = cb)
     = enclosed_in n s"
  (is "?L = ?R")
proof
  assume ?L
  then obtain x ob cb where b: "ob = CHR ''('' \<or> ob = CHR ''[''" "cb = CHR '')'' \<or> cb = CHR '']''"
    and p: "x < length s \<and> s ! x = ob \<and> lit_at True s (Suc x) n
                 \<and> Suc x + length n < length s \<and> s ! (Suc x + length n) = cb"
    by blast
  obtain pre mid post where "s = pre @ ob # mid @ cb # post"
    "map (canonicalize True) mid = map (canonicalize True) n"
    using p unfolding framed_positions by blast
  then show ?R
    unfolding enclosed_in_def using b canonicalize_True by blast
next
  assume ?R
  then obtain pre ob mid cb post where d: "s = pre @ ob # mid @ cb # post"
    "ob = CHR ''('' \<or> ob = CHR ''[''" "cb = CHR '')'' \<or> cb = CHR '']''"
    "map (canonicalize True) mid = map (canonicalize True) n"
    unfolding enclosed_in_def using canonicalize_True by blast
  have "length pre < length s \<and> s ! length pre = ob \<and> lit_at True s (Suc (length pre)) n
                 \<and> Suc (length pre) + length n < length s
                 \<and> s ! (Suc (length pre) + length n) = cb"
    unfolding framed_positions using d(1,4) by blast
  then show ?L using d(2,3) by blast
qed









subsection \<open>Handles in the title and the body\<close>





subsection \<open>Domains\<close>















subsection \<open>The surface forms, computed\<close>

text \<open>
  The surface forms are stated by decomposition of the text. Each is decided by a scan of
  the positions of the text, which gives its code equation.
\<close>

lemma list_ex_below: "list_ex P [0..<n] = (\<exists>x. x < n \<and> P x)"
proof -
  have "list_ex P [0..<n] = (\<exists>x \<in> {0..<n}. P x)"
    by (simp only: list_ex_iff set_upt)
  also have "\<dots> = (\<exists>x. x < n \<and> P x)"
    by (metis atLeastLessThan_iff le0)
  finally show ?thesis .
qed

lemma whole_word_in_code [code]:
  "whole_word_in w s
     = list_ex (\<lambda>x. lit_at True s x w \<and> \<not> is_word_before s x
                  \<and> \<not> is_word_at s (x + length w)) [0..<Suc (length s)]"
  (is "?L = ?R")
proof
  assume ?L
  then obtain pre mid post where d: "s = pre @ mid @ post" "same_ignoring_case mid w"
    "pre = [] \<or> \<not> is_word_char (last pre)" "post = [] \<or> \<not> is_word_char (hd post)"
    unfolding whole_word_in_def by blast
  have c: "map (canonicalize True) mid = map (canonicalize True) w"
    using d(2) canonicalize_True by blast
  have l: "length pre + length w = length (pre @ mid)"
    using map_eq_imp_length_eq [OF c] by simp
  have "lit_at True s (length pre) w"
    unfolding lit_at_decomp using d(1) c by blast
  moreover have "\<not> is_word_before s (length pre)"
    unfolding d(1) is_word_before_decomp using d(3) by blast
  moreover have "\<not> is_word_at ((pre @ mid) @ post) (length (pre @ mid))"
    unfolding is_word_at_decomp using d(4) by blast
  then have "\<not> is_word_at s (length pre + length w)"
    unfolding l using d(1) by simp
  moreover have "length pre \<le> length s" using d(1) by simp
  ultimately show ?R
    unfolding list_ex_upto by blast
next
  assume ?R
  then obtain x where x: "lit_at True s x w" "\<not> is_word_before s x"
    "\<not> is_word_at s (x + length w)"
    unfolding list_ex_upto by blast
  obtain pre mid post where d: "s = pre @ mid @ post" "length pre = x"
    "map (canonicalize True) mid = map (canonicalize True) w"
    using x(1) unfolding lit_at_decomp by blast
  have l: "x + length w = length (pre @ mid)"
    using map_eq_imp_length_eq [OF d(3)] d(2) by simp
  have "pre = [] \<or> \<not> is_word_char (last pre)"
    using x(2) unfolding d(1) d(2) [symmetric] is_word_before_decomp by blast
  moreover have "\<not> is_word_at ((pre @ mid) @ post) (length (pre @ mid))"
    using x(3) unfolding l d(1) by simp
  then have "post = [] \<or> \<not> is_word_char (hd post)"
    unfolding is_word_at_decomp by blast
  ultimately show ?L
    unfolding whole_word_in_def using d(1,3) canonicalize_True by blast
qed

lemma starts_with_colon_code [code]:
  "starts_with_colon w s
     = (lit_at True s 0 w \<and> length w < length s \<and> s ! length w = CHR '':'')"
  using starts_with_colon_positions [of s w] by simp

lemma enclosed_in_code [code]:
  "enclosed_in w s
     = list_ex (\<lambda>x. (s ! x = CHR ''('' \<or> s ! x = CHR ''['') \<and> lit_at True s (Suc x) w
                  \<and> Suc x + length w < length s
                  \<and> (s ! (Suc x + length w) = CHR '')'' \<or> s ! (Suc x + length w) = CHR '']''))
         [0..<length s]"
  unfolding list_ex_below enclosed_positions [symmetric] by blast

lemma mentioned_in_code [code]:
  "mentioned_in w s
     = list_ex (\<lambda>x. s ! x = CHR ''@'' \<and> lit_at True s (Suc x) w
                  \<and> \<not> is_word_at s (Suc x + length w)) [0..<length s]"
  (is "?L = ?R")
proof
  assume ?L
  then obtain pre mid post where d: "s = pre @ CHR ''@'' # mid @ post"
    "map (canonicalize True) mid = map (canonicalize True) w"
    "post = [] \<or> \<not> is_word_char (hd post)"
    unfolding mentioned_in_def using canonicalize_True by blast
  have p: "length pre < length s \<and> s ! length pre = CHR ''@'' \<and> lit_at True s (Suc (length pre)) w"
    unfolding prefixed_positions using d(1,2) by blast
  have l: "Suc (length pre) + length w = length (pre @ CHR ''@'' # mid)"
    using map_eq_imp_length_eq [OF d(2)] by simp
  have "\<not> is_word_at ((pre @ CHR ''@'' # mid) @ post) (length (pre @ CHR ''@'' # mid))"
    unfolding is_word_at_decomp using d(3) by blast
  then have "\<not> is_word_at s (Suc (length pre) + length w)"
    unfolding l using d(1) by simp
  then show ?R
    unfolding list_ex_below using p by blast
next
  assume ?R
  then obtain x where x: "x < length s \<and> s ! x = CHR ''@'' \<and> lit_at True s (Suc x) w"
    and b: "\<not> is_word_at s (Suc x + length w)"
    unfolding list_ex_below by blast
  obtain pre mid post where d: "s = pre @ CHR ''@'' # mid @ post" "length pre = x"
    "map (canonicalize True) mid = map (canonicalize True) w"
    using x unfolding prefixed_positions by blast
  have l: "Suc x + length w = length (pre @ CHR ''@'' # mid)"
    using map_eq_imp_length_eq [OF d(3)] d(2) by simp
  have "\<not> is_word_at ((pre @ CHR ''@'' # mid) @ post) (length (pre @ CHR ''@'' # mid))"
    using b unfolding l d(1) by simp
  then have "post = [] \<or> \<not> is_word_char (hd post)"
    unfolding is_word_at_decomp by blast
  then show ?L
    unfolding mentioned_in_def using d(1,3) canonicalize_True by blast
qed

lemma handle_marked_in_code [code]:
  "handle_marked_in t s
     = (starts_with_colon t s
        \<or> (case s of [] \<Rightarrow> False | c # rest \<Rightarrow> c = CHR ''@'' \<and> starts_with_colon t rest)
        \<or> mentioned_in t s
        \<or> enclosed_in t s)"
  by (cases s) (auto simp: handle_marked_in_def)

lemma host_matches_code [code]:
  "host_matches d h
     = (h = d
        \<or> (length d < length h \<and> drop (length h - length d) h = d
            \<and> h ! (length h - length d - 1) = CHR ''.''
            \<and> \<not> list_ex is_line_terminator (take (length h - length d - 1) h)))"
  (is "?L = ?R")
proof
  assume ?L
  then consider "h = d" | p where "h = p @ CHR ''.'' # d" "\<not> list_ex is_line_terminator p"
    unfolding host_matches_def by blast
  then show ?R
  proof cases
    case 1
    then show ?thesis by simp
  next
    case 2
    then show ?thesis by (simp add: nth_append)
  qed
next
  assume ?R
  then consider "h = d"
    | "length d < length h" "drop (length h - length d) h = d"
      "h ! (length h - length d - 1) = CHR ''.''"
      "\<not> list_ex is_line_terminator (take (length h - length d - 1) h)"
    by blast
  then show ?L
  proof cases
    case 1
    then show ?thesis by (simp add: host_matches_def)
  next
    case 2
    let ?k = "length h - length d - 1"
    have k: "?k < length h" "Suc ?k = length h - length d"
      using 2(1) by simp_all
    have "h = take ?k h @ h ! ?k # drop (Suc ?k) h"
      using id_take_nth_drop [OF k(1)] .
    then have "h = take ?k h @ CHR ''.'' # d"
      using 2(2,3) k(2) by simp
    then show ?thesis
      unfolding host_matches_def using 2(4) by blast
  qed
qed

end
